theory Spec2Isabelle
  imports Main
begin

section \<open>The document: elements, classes, inline style\<close>

text \<open>
  An element is referred to by a reference (a natural number); two references are the
  same element exactly when they are equal, as with JavaScript object identity.
  References cannot dangle, so the store \<open>elems\<close> is a total function.
\<close>

type_synonym ref = nat

text \<open>
  The value of \<open>style.transitionDelay\<close>. The script writes it with the template literal
  \<^verbatim>\<open>`${index * 0.2}s`\<close>; the product is a floating-point number whose decimal rendering
  is left symbolic: \<open>StaggerSeconds index\<close> stands for the text of \<open>index * 0.2\<close> followed
  by \<open>s\<close>. Any other text is a \<open>Literal\<close>.
\<close>

datatype delay_text = Literal string | StaggerSeconds int

record css_style =
  transitionDelay :: delay_text
  transform :: string
  boxShadow :: string
  opacity :: string
  display :: string

record element =
  classList :: "string list"
  id_attr :: string
  href :: "string option"
  parentElement :: "ref option"
  children :: "ref list"
  style :: css_style

datatype exn = TypeError

section \<open>Timers, the observer and the page state\<close>

text \<open>
  The three callbacks the script hands to \<open>setTimeout\<close>: the hero reveal (line 70), the
  loader hiding (line 239) and \<open>later\<close> of \<open>throttle\<close> (line 190).
\<close>

datatype callback = HeroAnimate ref | HideLoader ref | Later

type_synonym timer = "nat \<times> nat \<times> callback"

text \<open>
  The page state. \<open>all_elements\<close> lists the elements of the document in document order;
  \<open>observed\<close> is the target list of the module-level \<open>IntersectionObserver\<close>;
  \<open>timers\<close> holds the pending timers as (handle, due time, callback), \<open>now\<close> is the clock
  in milliseconds; \<open>timeout\<close> is the variable of that name in the closure of \<open>throttle\<close>
  (\<open>None\<close> is \<open>undefined\<close>). Two fields record calls that leave no trace in the page:
  \<open>scroll_calls\<close> the calls of \<open>scrollIntoView\<close> (target, behavior, block) and
  \<open>action_log\<close> the times at which the function wrapped by \<open>throttle\<close> ran.
\<close>

record world =
  elems :: "ref \<Rightarrow> element"
  all_elements :: "ref list"
  body :: "ref option"
  observed :: "ref list"
  timers :: "timer list"
  next_timer :: nat
  now :: nat
  timeout :: "nat option"
  scroll_calls :: "(ref \<times> string \<times> string) list"
  action_log :: "nat list"

record entry =
  isIntersecting :: bool
  target :: ref

subsection \<open>Platform operations\<close>

definition classList_contains :: "ref \<Rightarrow> string \<Rightarrow> world \<Rightarrow> bool" where
  "classList_contains e c w = (c \<in> set (classList (elems w e)))"

text \<open>\<open>classList.add\<close>: a token list is an ordered set, a present token is not added again.\<close>

definition classList_add :: "ref \<Rightarrow> string \<Rightarrow> world \<Rightarrow> world" where
  "classList_add e c w =
     (if c \<in> set (classList (elems w e)) then w
      else w\<lparr>elems := (elems w)(e := (elems w e)\<lparr>classList := classList (elems w e) @ [c]\<rparr>)\<rparr>)"

definition set_style :: "ref \<Rightarrow> (css_style \<Rightarrow> css_style) \<Rightarrow> world \<Rightarrow> world" where
  "set_style e f w = w\<lparr>elems := (elems w)(e := (elems w e)\<lparr>style := f (style (elems w e))\<rparr>)\<rparr>"

definition observe :: "ref \<Rightarrow> world \<Rightarrow> world" where
  "observe e w = (if e \<in> set (observed w) then w else w\<lparr>observed := observed w @ [e]\<rparr>)"

definition unobserve :: "ref \<Rightarrow> world \<Rightarrow> world" where
  "unobserve e w = w\<lparr>observed := removeAll e (observed w)\<rparr>"

text \<open>\<open>querySelectorAll('.c')\<close> and \<open>querySelector('.c')\<close>: the elements of class \<open>c\<close> in document order.\<close>

definition querySelectorAll :: "string \<Rightarrow> world \<Rightarrow> ref list" where
  "querySelectorAll c w = filter (\<lambda>e. c \<in> set (classList (elems w e))) (all_elements w)"

definition querySelector :: "string \<Rightarrow> world \<Rightarrow> ref option" where
  "querySelector c w = (case querySelectorAll c w of [] \<Rightarrow> None | e # _ \<Rightarrow> Some e)"

text \<open>\<open>getElementById\<close>: an empty id attribute gives an element no id, so \<open>''\<close> finds nothing.\<close>

definition getElementById :: "string \<Rightarrow> world \<Rightarrow> ref option" where
  "getElementById s w =
     (if s = [] then None else find (\<lambda>e. id_attr (elems w e) = s) (all_elements w))"

text \<open>\<open>Array.prototype.indexOf\<close>: the first position holding the value, \<open>-1\<close> when there is none.\<close>

fun indexOf_from :: "'a list \<Rightarrow> 'a \<Rightarrow> int \<Rightarrow> int" where
  "indexOf_from [] x k = - 1"
| "indexOf_from (y # ys) x k = (if y = x then k else indexOf_from ys x (k + 1))"

definition indexOf :: "'a list \<Rightarrow> 'a \<Rightarrow> int" where
  "indexOf xs x = indexOf_from xs x 0"

text \<open>\<open>forEach\<close> with a callback that may throw: the first exception ends the iteration.\<close>

fun forEach :: "('a \<Rightarrow> world \<Rightarrow> exn option \<times> world) \<Rightarrow> 'a list \<Rightarrow> world \<Rightarrow> exn option \<times> world" where
  "forEach f [] w = (None, w)"
| "forEach f (x # xs) w =
     (case f x w of
        (Some ex, w') \<Rightarrow> (Some ex, w')
      | (None, w') \<Rightarrow> forEach f xs w')"

section \<open>The visibility-triggered animator\<close>

text \<open>
  \<open>addStaggeredAnimation\<close> (lines 53-60). \<open>parentList.children\<close> throws a \<open>TypeError\<close> when
  \<open>element.parentElement\<close> is \<open>null\<close>.
\<close>

definition addStaggeredAnimation :: "ref \<Rightarrow> world \<Rightarrow> exn option \<times> world" where
  "addStaggeredAnimation element w =
     (case parentElement (elems w element) of
        None \<Rightarrow> (Some TypeError, w)
      | Some parentList \<Rightarrow>
          (let items = children (elems w parentList);
               index = indexOf items element
           in (None, set_style element (\<lambda>s. s\<lparr>transitionDelay := StaggerSeconds index\<rparr>) w)))"

text \<open>The body of the arrow function of \<open>handleIntersection\<close> (lines 26-38).\<close>

definition handleEntry :: "entry \<Rightarrow> world \<Rightarrow> exn option \<times> world" where
  "handleEntry en w =
     (if isIntersecting en then
        (let w1 = classList_add (target en) ''animate'' w in
         if classList_contains (target en) ''problem-item'' w1 \<or>
            classList_contains (target en) ''solution-item'' w1
         then (case addStaggeredAnimation (target en) w1 of
                 (Some ex, w2) \<Rightarrow> (Some ex, w2)
               | (None, w2) \<Rightarrow> (None, unobserve (target en) w2))
         else (None, unobserve (target en) w1))
      else (None, w))"

definition handleIntersection :: "entry list \<Rightarrow> world \<Rightarrow> exn option \<times> world" where
  "handleIntersection entries w = forEach handleEntry entries w"

text \<open>
  The platform calls \<open>handleIntersection\<close> once for each batch of notifications. An
  exception of one call is reported and does not stop later calls; the changes made
  before it stay. \<open>notifications\<close> gives the page state after a sequence of batches,
  \<open>trajectory\<close> the states before the first batch and after each one.
\<close>

fun notifications :: "entry list list \<Rightarrow> world \<Rightarrow> world" where
  "notifications [] w = w"
| "notifications (b # bs) w = notifications bs (snd (handleIntersection b w))"

fun trajectory :: "entry list list \<Rightarrow> world \<Rightarrow> world list" where
  "trajectory [] w = [w]"
| "trajectory (b # bs) w = w # trajectory bs (snd (handleIntersection b w))"

text \<open>The animated flag of an element: membership of the class \<open>animate\<close>.\<close>

definition animated :: "ref \<Rightarrow> world \<Rightarrow> bool" where
  "animated e w = classList_contains e ''animate'' w"

section \<open>Service blocks, list items, hero\<close>

text \<open>
  \<open>initServiceBlocksAnimation\<close> (lines 80-87): \<open>index\<close> is the position of the block in
  the result of the query. Neither call of the loop body can throw, so the loop is a fold.
\<close>

definition initServiceBlocksAnimation :: "world \<Rightarrow> world" where
  "initServiceBlocksAnimation w =
     fold (\<lambda>(index, block) w'.
             observe block
               (set_style block (\<lambda>s. s\<lparr>transitionDelay := StaggerSeconds (int index)\<rparr>) w'))
          (enumerate 0 (querySelectorAll ''service-block'' w)) w"

text \<open>\<open>initListItemsAnimation\<close> (lines 93-106).\<close>

definition initListItemsAnimation :: "world \<Rightarrow> world" where
  "initListItemsAnimation w =
     (let problemItems = querySelectorAll ''problem-item'' w;
          solutionItems = querySelectorAll ''solution-item'' w
      in fold observe solutionItems (fold observe problemItems w))"

section \<open>Anchor navigation and hover\<close>

record click_event =
  defaultPrevented :: bool

text \<open>
  The click listener of \<open>initSmoothScrolling\<close> (lines 130-142), bound to the elements
  matching \<open>a[href^="#"]\<close>; \<open>this\<close> is the link. \<open>getAttribute\<close> gives \<open>null\<close> for a
  missing attribute, on which \<open>substring\<close> throws.
\<close>

definition anchor_click :: "ref \<Rightarrow> click_event \<Rightarrow> world \<Rightarrow> exn option \<times> click_event \<times> world" where
  "anchor_click this e w =
     (let e1 = e\<lparr>defaultPrevented := True\<rparr> in
      case href (elems w this) of
        None \<Rightarrow> (Some TypeError, e1, w)
      | Some h \<Rightarrow>
          (let targetId = drop 1 h in
           case getElementById targetId w of
             None \<Rightarrow> (None, e1, w)
           | Some targetElement \<Rightarrow>
               (None, e1,
                w\<lparr>scroll_calls := scroll_calls w @ [(targetElement, ''smooth'', ''start'')]\<rparr>)))"

text \<open>The two listeners of \<open>initHoverEffects\<close> (lines 154-162).\<close>

definition mouseenter :: "ref \<Rightarrow> world \<Rightarrow> world" where
  "mouseenter this w =
     set_style this
       (\<lambda>s. s\<lparr>transform := ''translateY(-5px)'',
              boxShadow := ''0 10px 30px rgba(0, 0, 0, 0.1)''\<rparr>) w"

definition mouseleave :: "ref \<Rightarrow> world \<Rightarrow> world" where
  "mouseleave this w =
     set_style this (\<lambda>s. s\<lparr>transform := ''translateY(0)'', boxShadow := ''none''\<rparr>) w"

section \<open>Timers\<close>

text \<open>
  \<open>setTimeout\<close> returns a fresh handle and queues the callback for \<open>now + wait\<close>;
  \<open>clearTimeout\<close> drops the timer of that handle, if it is still pending, and ignores
  \<open>undefined\<close>.
\<close>

definition setTimeout :: "callback \<Rightarrow> nat \<Rightarrow> world \<Rightarrow> nat \<times> world" where
  "setTimeout cb wait w =
     (next_timer w,
      w\<lparr>timers := timers w @ [(next_timer w, now w + wait, cb)],
        next_timer := Suc (next_timer w)\<rparr>)"

definition clearTimeout :: "nat option \<Rightarrow> world \<Rightarrow> world" where
  "clearTimeout h w =
     (case h of
        None \<Rightarrow> w
      | Some i \<Rightarrow> w\<lparr>timers := filter (\<lambda>tm. fst tm \<noteq> i) (timers w)\<rparr>)"

text \<open>
  The function the resize listener wraps (lines 223-226) has an empty body; the model
  records the time of each of its runs.
\<close>

definition resizeAction :: "world \<Rightarrow> world" where
  "resizeAction w = w\<lparr>action_log := action_log w @ [now w]\<rparr>"

text \<open>\<open>throttle\<close> (lines 187-197): \<open>later\<close> and the returned \<open>executedFunction\<close>.\<close>

definition later :: "world \<Rightarrow> world" where
  "later w = resizeAction (clearTimeout (timeout w) w)"

definition executedFunction :: "nat \<Rightarrow> world \<Rightarrow> world" where
  "executedFunction wait w =
     (let w1 = clearTimeout (timeout w) w;
          (h, w2) = setTimeout Later wait w1
      in w2\<lparr>timeout := Some h\<rparr>)"

definition resize_listener :: "world \<Rightarrow> world" where
  "resize_listener w = executedFunction 250 w"

text \<open>\<open>initHeroAnimation\<close> (lines 66-74) and the load listener (lines 232-243).\<close>

definition initHeroAnimation :: "world \<Rightarrow> world" where
  "initHeroAnimation w =
     (case querySelector ''hero-content'' w of
        None \<Rightarrow> w
      | Some heroContent \<Rightarrow> snd (setTimeout (HeroAnimate heroContent) 300 w))"

definition window_load :: "world \<Rightarrow> exn option \<times> world" where
  "window_load w =
     (case body w of
        None \<Rightarrow> (Some TypeError, w)
      | Some b \<Rightarrow>
          (let w1 = classList_add b ''loaded'' w in
           case querySelector ''loader'' w1 of
             None \<Rightarrow> (None, w1)
           | Some loader \<Rightarrow>
               (let w2 = set_style loader (\<lambda>s. s\<lparr>opacity := ''0''\<rparr>) w1
                in (None, snd (setTimeout (HideLoader loader) 300 w2)))))"

subsection \<open>The passage of time\<close>

fun run_callback :: "callback \<Rightarrow> world \<Rightarrow> world" where
  "run_callback (HeroAnimate heroContent) w = classList_add heroContent ''animate'' w"
| "run_callback (HideLoader loader) w = set_style loader (\<lambda>s. s\<lparr>display := ''none''\<rparr>) w"
| "run_callback Later w = later w"

text \<open>
  A timer fires once and leaves the queue when it does. Among the timers due by time
  \<open>t\<close> the one with the least due time fires first, the one queued first among equals.
\<close>

fun earliest :: "timer list \<Rightarrow> timer option" where
  "earliest [] = None"
| "earliest (x # xs) =
     (case earliest xs of
        None \<Rightarrow> Some x
      | Some y \<Rightarrow> if fst (snd y) < fst (snd x) then Some y else Some x)"

definition next_due :: "nat \<Rightarrow> world \<Rightarrow> timer option" where
  "next_due t w = earliest (filter (\<lambda>tm. fst (snd tm) \<le> t) (timers w))"

definition run_timer :: "timer \<Rightarrow> world \<Rightarrow> world" where
  "run_timer tm w =
     run_callback (snd (snd tm))
       (w\<lparr>timers := filter (\<lambda>x. fst x \<noteq> fst tm) (timers w),
          now := max (now w) (fst (snd tm))\<rparr>)"

text \<open>Time advances to \<open>t\<close>, every timer due by then firing in turn.\<close>

function advance_to :: "nat \<Rightarrow> world \<Rightarrow> world" where
  "advance_to t w =
     (case next_due t w of
        None \<Rightarrow> w\<lparr>now := max (now w) t\<rparr>
      | Some tm \<Rightarrow> advance_to t (run_timer tm w))"
  by pat_completeness auto
termination
proof (relation "measure (\<lambda>(t, w). length (timers w))")
  show "wf (measure (\<lambda>(t, w). length (timers w)))" by simp
next
  fix t w tm
  assume due: "next_due t w = Some tm"
  have mem: "earliest xs = Some y \<Longrightarrow> y \<in> set xs" for xs and y :: timer
    by (induction xs arbitrary: y) (auto split: option.splits if_splits)
  have "tm \<in> set (timers w)"
    using mem[OF due[unfolded next_due_def]] by simp
  then have less: "length (filter (\<lambda>x. fst x \<noteq> fst tm) (timers w)) < length (timers w)"
    by (intro length_filter_less[of tm]) auto
  have cb: "length (timers (run_callback c v)) \<le> length (timers v)" for c v
  proof (cases c)
    case (HeroAnimate h)
    then show ?thesis by (simp add: classList_add_def)
  next
    case (HideLoader l)
    then show ?thesis by (simp add: set_style_def)
  next
    case Later
    then show ?thesis
      by (cases "timeout v") (simp_all add: later_def resizeAction_def clearTimeout_def)
  qed
  have "length (timers (run_timer tm w)) \<le> length (filter (\<lambda>x. fst x \<noteq> fst tm) (timers w))"
    unfolding run_timer_def by (rule order_trans[OF cb]) simp
  with less show "((t, run_timer tm w), (t, w)) \<in> measure (\<lambda>(t, w). length (timers w))"
    by simp
qed

declare advance_to.simps [simp del]

definition elapse :: "nat \<Rightarrow> world \<Rightarrow> world" where
  "elapse d w = advance_to (now w + d) w"

text \<open>
  A sequence of resize events, each given with the time since the one before it (the
  first with the time since the starting state).
\<close>

fun resizes :: "nat list \<Rightarrow> world \<Rightarrow> world" where
  "resizes [] w = w"
| "resizes (g # gs) w = resizes gs (resize_listener (elapse g w))"

section \<open>An example page\<close>

definition blank_style :: css_style where
  "blank_style =
     \<lparr>transitionDelay = Literal [], transform = [], boxShadow = [], opacity = [], display = []\<rparr>"

definition blank_element :: element where
  "blank_element =
     \<lparr>classList = [], id_attr = [], href = None, parentElement = None, children = [],
      style = blank_style\<rparr>"

text \<open>
  Element 0 is the root and 1 the body. Element 2 is a list whose children are a heading
  (3) and two problem items (4, 5); element 6 is a section whose children are a heading
  (7) and two service blocks (8, 9). Elements 10 to 12 are links to \<open>#contact\<close>, \<open>#\<close> and
  \<open>#missing\<close>, element 13 has the id \<open>contact\<close>, element 14 is the loader.
\<close>

definition example_elems :: "ref \<Rightarrow> element" where
  "example_elems =
     (\<lambda>_. blank_element)
     (0 := blank_element\<lparr>children := [1]\<rparr>,
      1 := blank_element\<lparr>parentElement := Some 0, children := [2, 6, 10, 11, 12, 13, 14]\<rparr>,
      2 := blank_element\<lparr>parentElement := Some 1, children := [3, 4, 5]\<rparr>,
      3 := blank_element\<lparr>parentElement := Some 2\<rparr>,
      4 := blank_element\<lparr>classList := [''problem-item''], parentElement := Some 2\<rparr>,
      5 := blank_element\<lparr>classList := [''problem-item''], parentElement := Some 2\<rparr>,
      6 := blank_element\<lparr>parentElement := Some 1, children := [7, 8, 9]\<rparr>,
      7 := blank_element\<lparr>parentElement := Some 6\<rparr>,
      8 := blank_element\<lparr>classList := [''service-block''], parentElement := Some 6\<rparr>,
      9 := blank_element\<lparr>classList := [''service-block''], parentElement := Some 6\<rparr>,
      10 := blank_element\<lparr>href := Some ''#contact'', parentElement := Some 1\<rparr>,
      11 := blank_element\<lparr>href := Some ''#'', parentElement := Some 1\<rparr>,
      12 := blank_element\<lparr>href := Some ''#missing'', parentElement := Some 1\<rparr>,
      13 := blank_element\<lparr>classList := [''contact-content''], id_attr := ''contact'',
              parentElement := Some 1\<rparr>,
      14 := blank_element\<lparr>classList := [''loader''], parentElement := Some 1\<rparr>)"

definition example_page :: world where
  "example_page =
     \<lparr>elems = example_elems,
      all_elements = [0, 1, 2, 3, 4, 5, 6, 7, 8, 9, 10, 11, 12, 13, 14],
      body = Some 1, observed = [4, 5, 8, 9, 13], timers = [], next_timer = 1, now = 0,
      timeout = None, scroll_calls = [], action_log = []\<rparr>"

text \<open>
  A page whose root element carries the class of a list item and is observed. The root
  has no parent element.
\<close>

definition root_item_page :: world where
  "root_item_page =
     \<lparr>elems = (\<lambda>_. blank_element)
        (0 := blank_element\<lparr>classList := [''problem-item''], children := [1]\<rparr>,
         1 := blank_element\<lparr>classList := [''mission-content''], parentElement := Some 0\<rparr>),
      all_elements = [0, 1], body = Some 1, observed = [0, 1], timers = [], next_timer = 1,
      now = 0, timeout = None, scroll_calls = [], action_log = []\<rparr>"

section \<open>Well-formed timer queues and bursts of events\<close>

text \<open>
  What holds of the timer queue in every state the script can reach: handles are
  distinct and below the next handle to be given out, no pending timer is overdue, and
  the pending timer that \<open>timeout\<close> names, if there is one, is exactly the one whose
  callback is \<open>later\<close>.
\<close>

definition timers_ok :: "world \<Rightarrow> bool" where
  "timers_ok w =
     (distinct (map fst (timers w)) \<and>
      (\<forall>tm \<in> set (timers w).
          fst tm < next_timer w \<and> now w \<le> fst (snd tm) \<and>
          ((snd (snd tm) = Later) = (timeout w = Some (fst tm)))) \<and>
      (\<forall>h. timeout w = Some h \<longrightarrow> h < next_timer w))"

text \<open>The due times of the pending \<open>later\<close> callbacks.\<close>

definition pending_later :: "world \<Rightarrow> nat list" where
  "pending_later w = map (\<lambda>tm. fst (snd tm)) (filter (\<lambda>tm. snd (snd tm) = Later) (timers w))"

text \<open>
  The times of a sequence of events given by its gaps, and the last event of each burst:
  an event ends a burst when it is the last one or the next one comes 250 ms or more
  after it.
\<close>

fun event_times :: "nat \<Rightarrow> nat list \<Rightarrow> nat list" where
  "event_times t [] = []"
| "event_times t (g # gs) = (t + g) # event_times (t + g) gs"

fun burst_ends :: "nat list \<Rightarrow> nat list" where
  "burst_ends [] = []"
| "burst_ends [t] = [t]"
| "burst_ends (t # u # ts) = (if t + 250 \<le> u then t # burst_ends (u # ts) else burst_ends (u # ts))"

section \<open>Helper lemmas\<close>

lemmas example_simps = example_page_def example_elems_def blank_element_def blank_style_def

lemma forEach_preserves:
  assumes step: "\<And>x w. x \<in> set xs \<Longrightarrow> P w \<Longrightarrow> P (snd (f x w))"
    and "P w"
  shows "P (snd (forEach f xs w))"
  using assms
proof (induction xs arbitrary: w)
  case Nil
  then show ?case by simp
next
  case (Cons x xs)
  have px: "P (snd (f x w))" using Cons.prems by simp
  show ?case
  proof (cases "f x w")
    case (Pair r w')
    with px have pw': "P w'" by simp
    show ?thesis
    proof (cases r)
      case None
      with Pair have "forEach f (x # xs) w = forEach f xs w'" by simp
      moreover have "P (snd (forEach f xs w'))"
        using Cons.IH[of w'] Cons.prems(1) pw' by simp
      ultimately show ?thesis by simp
    next
      case (Some ex)
      with Pair pw' show ?thesis by simp
    qed
  qed
qed

lemma elems_classList_add:
  "elems (classList_add e c w) x =
     (if x = e \<and> c \<notin> set (classList (elems w e))
      then (elems w e)\<lparr>classList := classList (elems w e) @ [c]\<rparr> else elems w x)"
  by (simp add: classList_add_def)

lemma elems_unobserve: "elems (unobserve e w) = elems w"
  by (simp add: unobserve_def)

lemma elems_set_style:
  "elems (set_style e f w) x =
     (if x = e then (elems w e)\<lparr>style := f (style (elems w e))\<rparr> else elems w x)"
  by (simp add: set_style_def)

lemmas handleEntry_unfold =
  handleEntry_def addStaggeredAnimation_def Let_def classList_contains_def
  elems_classList_add elems_unobserve elems_set_style

lemma classList_handleEntry:
  "set (classList (elems w e)) \<subseteq> set (classList (elems (snd (handleEntry en w)) e))"
  by (auto simp: handleEntry_unfold split: option.splits)

lemma untouched_handleEntry:
  "\<not> (isIntersecting en \<and> target en = e) \<Longrightarrow> elems (snd (handleEntry en w)) e = elems w e"
  by (auto simp: handleEntry_unfold split: option.splits)

lemma animated_handleIntersection:
  "animated e w \<Longrightarrow> animated e (snd (handleIntersection b w))"
  unfolding handleIntersection_def
  by (rule forEach_preserves[where P = "animated e"])
     (use classList_handleEntry in \<open>auto simp: animated_def classList_contains_def\<close>)

lemma animated_trajectory:
  "w' \<in> set (trajectory bs w) \<Longrightarrow> animated e w \<Longrightarrow> animated e w'"
  by (induction bs arbitrary: w) (auto simp: animated_handleIntersection)

lemma sorted_trajectory: "sorted (map (animated e) (trajectory bs w))"
proof (induction bs arbitrary: w)
  case Nil
  then show ?case by simp
next
  case (Cons b bs)
  have "animated e w \<Longrightarrow> animated e w'"
    if "w' \<in> set (trajectory bs (snd (handleIntersection b w)))" for w'
    using that animated_trajectory animated_handleIntersection by blast
  with Cons.IH show ?case by (auto simp: le_bool_def)
qed

lemma untouched_handleIntersection:
  assumes "\<forall>en \<in> set b. target en = e \<longrightarrow> \<not> isIntersecting en"
  shows "elems (snd (handleIntersection b w)) e = elems w e"
  unfolding handleIntersection_def
  by (rule forEach_preserves[where P = "\<lambda>w'. elems w' e = elems w e"])
     (use assms untouched_handleEntry in auto)

section \<open>The animated flag\<close>

text \<open>
  Claim C1. Along any sequence of notification batches the animated flag of an element
  never goes from true to false: the flags of the successive page states form a list
  sorted in the order \<open>False < True\<close>, so the flag changes at most once, from false to
  true. A batch in which no intersecting entry has the element as its target leaves the
  element as it was.
\<close>

theorem animated_flag_monotone:
  "sorted (map (animated e) (trajectory bs w)) \<and>
   ((\<forall>en \<in> set b. target en = e \<longrightarrow> \<not> isIntersecting en) \<longrightarrow>
      elems (snd (handleIntersection b w)) e = elems w e)"
  using sorted_trajectory untouched_handleIntersection by blast

theorem animated_flag_monotone_witness:
  "map (animated 4)
     (trajectory [[\<lparr>isIntersecting = False, target = 4\<rparr>],
                  [\<lparr>isIntersecting = True, target = 4\<rparr>],
                  [\<lparr>isIntersecting = False, target = 4\<rparr>]] example_page)
     = [False, False, True, True] \<and>
   sorted [False, False, True, True] \<and>
   elems (snd (handleIntersection
      [\<lparr>isIntersecting = False, target = 4\<rparr>, \<lparr>isIntersecting = True, target = 5\<rparr>]
      example_page)) 4 = elems example_page 4"
proof -
  have flags: "map (animated 4)
     (trajectory [[\<lparr>isIntersecting = False, target = 4\<rparr>],
                  [\<lparr>isIntersecting = True, target = 4\<rparr>],
                  [\<lparr>isIntersecting = False, target = 4\<rparr>]] example_page)
     = [False, False, True, True]"
    by (simp add: example_simps handleIntersection_def handleEntry_unfold animated_def
        unobserve_def)
  have h: "\<forall>en \<in> set [\<lparr>isIntersecting = False, target = 4\<rparr>, \<lparr>isIntersecting = True, target = 5\<rparr>].
      target en = 4 \<longrightarrow> \<not> isIntersecting en"
    by simp
  show ?thesis
    using flags h
      animated_flag_monotone[of 4 "[[\<lparr>isIntersecting = False, target = 4\<rparr>],
                  [\<lparr>isIntersecting = True, target = 4\<rparr>],
                  [\<lparr>isIntersecting = False, target = 4\<rparr>]]" example_page
         "[\<lparr>isIntersecting = False, target = 4\<rparr>, \<lparr>isIntersecting = True, target = 5\<rparr>]"]
    by simp
qed

section \<open>The stagger delay of list items\<close>

lemma indexOf_from_nth:
  "i < length xs \<Longrightarrow> xs ! i = x \<Longrightarrow> x \<notin> set (take i xs) \<Longrightarrow> indexOf_from xs x k = k + int i"
proof (induction xs arbitrary: i k)
  case Nil
  then show ?case by simp
next
  case (Cons y ys)
  show ?case
  proof (cases i)
    case 0
    with Cons.prems show ?thesis by simp
  next
    case (Suc j)
    with Cons.prems have "y \<noteq> x" "j < length ys" "ys ! j = x" "x \<notin> set (take j ys)"
      by auto
    with Cons.IH[of j "k + 1"] Suc show ?thesis by simp
  qed
qed

lemma indexOf_nth:
  assumes "distinct xs" "i < length xs"
  shows "indexOf xs (xs ! i) = int i"
proof -
  have "xs ! i \<notin> set (take i xs)"
  proof
    assume "xs ! i \<in> set (take i xs)"
    then obtain j where "j < length (take i xs)" "take i xs ! j = xs ! i"
      by (auto simp: in_set_conv_nth)
    then have "j < i" "xs ! j = xs ! i" by simp_all
    with assms show False by (simp add: nth_eq_iff_index_eq)
  qed
  then show ?thesis
    using assms indexOf_from_nth[of i xs "xs ! i" 0] by (simp add: indexOf_def)
qed

lemma tree_handleEntry:
  "parentElement (elems (snd (handleEntry en w)) x) = parentElement (elems w x) \<and>
   children (elems (snd (handleEntry en w)) x) = children (elems w x)"
  by (auto simp: handleEntry_unfold split: option.splits)

lemma tree_handleIntersection:
  "parentElement (elems (snd (handleIntersection es w)) x) = parentElement (elems w x) \<and>
   children (elems (snd (handleIntersection es w)) x) = children (elems w x)"
  unfolding handleIntersection_def
  by (rule forEach_preserves[where P = "\<lambda>v. parentElement (elems v x) = parentElement (elems w x) \<and>
        children (elems v x) = children (elems w x)"])
     (simp_all add: tree_handleEntry)

lemma tree_notifications:
  "parentElement (elems (notifications bs w) x) = parentElement (elems w x) \<and>
   children (elems (notifications bs w) x) = children (elems w x)"
  by (induction bs arbitrary: w) (simp_all add: tree_handleIntersection)

lemma classList_handleIntersection:
  "set (classList (elems w e)) \<subseteq> set (classList (elems (snd (handleIntersection es w)) e))"
  unfolding handleIntersection_def
  by (rule forEach_preserves[where P = "\<lambda>v. set (classList (elems w e)) \<subseteq> set (classList (elems v e))"])
     (use classList_handleEntry in blast)+

lemma classList_notifications:
  "set (classList (elems w e)) \<subseteq> set (classList (elems (notifications bs w) e))"
proof (induction bs arbitrary: w)
  case Nil
  then show ?case by simp
next
  case (Cons b bs)
  show ?case
    using classList_handleIntersection[of w e b] Cons.IH[of "snd (handleIntersection b w)"]
    by auto
qed

text \<open>A successful step on an intersecting list item writes the delay of its position.\<close>

lemma delay_handleEntry:
  assumes "handleEntry en w = (None, w1)" "isIntersecting en"
    and "classList_contains (target en) ''problem-item'' w \<or>
         classList_contains (target en) ''solution-item'' w"
    and "parentElement (elems w (target en)) = Some p"
  shows "transitionDelay (style (elems w1 (target en))) =
           StaggerSeconds (indexOf (children (elems w p)) (target en))"
  using assms
  by (auto simp: handleEntry_unfold split: option.splits if_splits)

text \<open>Once written, the delay stays whatever entries follow while the tree is the same.\<close>

lemma delay_kept_handleEntry:
  assumes "parentElement (elems w t) = Some p"
    and "transitionDelay (style (elems w t)) = StaggerSeconds (indexOf (children (elems w p)) t)"
  shows "transitionDelay (style (elems (snd (handleEntry en w)) t)) =
           StaggerSeconds (indexOf (children (elems w p)) t)"
  using assms
  by (auto simp: handleEntry_unfold split: option.splits if_splits)

lemma delay_kept_forEach:
  assumes "parentElement (elems w t) = Some p"
    and "transitionDelay (style (elems w t)) = StaggerSeconds (indexOf (children (elems w p)) t)"
  shows "transitionDelay (style (elems (snd (forEach handleEntry es w)) t)) =
           StaggerSeconds (indexOf (children (elems w p)) t)"
  by (rule forEach_preserves[where P = "\<lambda>v. parentElement (elems v t) = Some p \<and>
         children (elems v p) = children (elems w p) \<and>
         transitionDelay (style (elems v t)) = StaggerSeconds (indexOf (children (elems w p)) t)",
        THEN conjunct2, THEN conjunct2])
     (use assms delay_kept_handleEntry tree_handleEntry in auto)

lemma delay_forEach:
  assumes "forEach handleEntry es w = (None, w')" "en \<in> set es" "isIntersecting en"
    and "classList_contains (target en) ''problem-item'' w \<or>
         classList_contains (target en) ''solution-item'' w"
    and "parentElement (elems w (target en)) = Some p"
  shows "transitionDelay (style (elems w' (target en))) =
           StaggerSeconds (indexOf (children (elems w p)) (target en))"
  using assms
proof (induction es arbitrary: w)
  case Nil
  then show ?case by simp
next
  case (Cons x xs)
  from Cons.prems(1) obtain w1 where
    x: "handleEntry x w = (None, w1)" and xs: "forEach handleEntry xs w1 = (None, w')"
    by (auto split: prod.splits option.splits)
  have w1: "w1 = snd (handleEntry x w)" using x by simp
  have par: "parentElement (elems w1 (target en)) = Some p"
    and ch: "children (elems w1 p) = children (elems w p)"
    using tree_handleEntry[of x w] Cons.prems(5) by (simp_all add: w1)
  show ?case
  proof (cases "en = x")
    case True
    have "transitionDelay (style (elems w1 (target en))) =
            StaggerSeconds (indexOf (children (elems w p)) (target en))"
      using delay_handleEntry[OF x[folded True] Cons.prems(3,4,5)] .
    then have "transitionDelay (style (elems (snd (forEach handleEntry xs w1)) (target en))) =
            StaggerSeconds (indexOf (children (elems w1 p)) (target en))"
      using delay_kept_forEach[OF par, of xs] ch by simp
    with xs ch show ?thesis by simp
  next
    case False
    then have mem: "en \<in> set xs" using Cons.prems(2) by simp
    have cls: "classList_contains (target en) ''problem-item'' w1 \<or>
         classList_contains (target en) ''solution-item'' w1"
      using Cons.prems(4) classList_handleEntry[of w "target en" x]
      by (auto simp: classList_contains_def w1)
    show ?thesis
      using Cons.IH[OF xs mem Cons.prems(3) cls par] ch by simp
  qed
qed

text \<open>
  Claim C2. Take the page at any moment, and let a list item be the \<open>i\<close>-th child
  (counting from 0) of its parent then. Whatever batches are handled before it triggers,
  its siblings triggering in any order among them, and wherever its entry stands in its
  own batch, the delay written on it when that batch goes through is that of
  \<open>index = i\<close>, the text of \<open>i * 0.2\<close> followed by \<open>s\<close>. The handler never changes
  a parent or a child list, so the position is the one at the trigger.
\<close>

theorem stagger_delay:
  assumes "handleIntersection es (notifications bs w) = (None, w')"
    and "en \<in> set es" "isIntersecting en"
    and "classList_contains (target en) ''problem-item'' w \<or>
         classList_contains (target en) ''solution-item'' w"
    and "parentElement (elems w (target en)) = Some p"
    and "distinct (children (elems w p))"
    and "i < length (children (elems w p))" "children (elems w p) ! i = target en"
  shows "transitionDelay (style (elems w' (target en))) = StaggerSeconds (int i)"
proof -
  let ?v = "notifications bs w"
  have cls: "classList_contains (target en) ''problem-item'' ?v \<or>
         classList_contains (target en) ''solution-item'' ?v"
    using assms(4) classList_notifications[of w "target en" bs]
    by (auto simp: classList_contains_def)
  have par: "parentElement (elems ?v (target en)) = Some p"
    and ch: "children (elems ?v p) = children (elems w p)"
    using tree_notifications[of bs w] assms(5) by simp_all
  have "transitionDelay (style (elems w' (target en))) =
           StaggerSeconds (indexOf (children (elems ?v p)) (target en))"
    using delay_forEach[OF assms(1)[unfolded handleIntersection_def] assms(2,3) cls par] .
  also have "indexOf (children (elems ?v p)) (target en) = int i"
    using indexOf_nth[OF assms(6,7)] assms(8) ch by simp
  finally show ?thesis .
qed

theorem stagger_delay_witness:
  "fst (handleIntersection [\<lparr>isIntersecting = True, target = 3\<rparr>, \<lparr>isIntersecting = True, target = 4\<rparr>]
          (notifications [[\<lparr>isIntersecting = True, target = 5\<rparr>]] example_page)) = None \<and>
   classList_contains 4 ''problem-item'' example_page \<and>
   parentElement (elems example_page 4) = Some 2 \<and>
   children (elems example_page 2) = [3, 4, 5] \<and>
   transitionDelay (style (elems (snd (handleIntersection
        [\<lparr>isIntersecting = True, target = 3\<rparr>, \<lparr>isIntersecting = True, target = 4\<rparr>]
        (notifications [[\<lparr>isIntersecting = True, target = 5\<rparr>]] example_page))) 4))
     = StaggerSeconds 1"
proof -
  let ?es = "[\<lparr>isIntersecting = True, target = 3\<rparr>, \<lparr>isIntersecting = True, target = 4\<rparr>]"
  let ?v = "notifications [[\<lparr>isIntersecting = True, target = 5\<rparr>]] example_page"
  have ok: "fst (handleIntersection ?es ?v) = None"
    by (simp add: example_simps handleIntersection_def handleEntry_unfold unobserve_def)
  then have run: "handleIntersection ?es ?v = (None, snd (handleIntersection ?es ?v))"
    by (simp add: prod_eq_iff)
  have cls: "classList_contains 4 ''problem-item'' example_page"
    by (simp add: example_simps classList_contains_def)
  have par: "parentElement (elems example_page 4) = Some 2"
    by (simp add: example_simps)
  have ch: "children (elems example_page 2) = [3, 4, 5]"
    by (simp add: example_simps)
  have "transitionDelay (style (elems (snd (handleIntersection ?es ?v)) 4)) = StaggerSeconds (int 1)"
    using stagger_delay[where en = "\<lparr>isIntersecting = True, target = 4\<rparr>" and p = 2 and i = 1, OF run]
      cls par ch by simp
  with ok cls par ch show ?thesis by simp
qed

section \<open>Anchor navigation\<close>

text \<open>
  Claim C5. A click on a link whose \<open>href\<close> is \<open>#\<close> followed by a fragment: when the
  document has an element with that id, the listener does not throw, marks the event as
  default-prevented and calls \<open>scrollIntoView\<close> once, with smooth behaviour, on an
  element of that id (the first in document order); when it has none, the listener does
  not throw and leaves the page, and so the list of scroll calls, as it was.
\<close>

theorem anchor_click_scroll:
  assumes "href (elems w this) = Some (CHR ''#'' # frag)"
  shows "if frag \<noteq> [] \<and> (\<exists>x \<in> set (all_elements w). id_attr (elems w x) = frag)
         then \<exists>t \<in> set (all_elements w). id_attr (elems w t) = frag \<and>
                anchor_click this e w =
                  (None, e\<lparr>defaultPrevented := True\<rparr>,
                   w\<lparr>scroll_calls := scroll_calls w @ [(t, ''smooth'', ''start'')]\<rparr>)
         else fst (anchor_click this e w) = None \<and> snd (snd (anchor_click this e w)) = w"
proof (cases "getElementById frag w")
  case None
  then have "\<not> (frag \<noteq> [] \<and> (\<exists>x \<in> set (all_elements w). id_attr (elems w x) = frag))"
    by (auto simp: getElementById_def find_None_iff split: if_splits)
  with None assms show ?thesis by (auto simp: anchor_click_def)
next
  case (Some t)
  then have "frag \<noteq> []" and f: "find (\<lambda>x. id_attr (elems w x) = frag) (all_elements w) = Some t"
    by (auto simp: getElementById_def split: if_splits)
  from f have "t \<in> set (all_elements w)" "id_attr (elems w t) = frag"
    by (auto simp: find_Some_iff)
  with Some assms \<open>frag \<noteq> []\<close> show ?thesis
    by (auto simp: anchor_click_def)
qed

theorem anchor_click_scroll_witness:
  "href (elems example_page 10) = Some (CHR ''#'' # ''contact'') \<and>
   anchor_click 10 \<lparr>defaultPrevented = False\<rparr> example_page =
     (None, \<lparr>defaultPrevented = True\<rparr>,
      example_page\<lparr>scroll_calls := [(13, ''smooth'', ''start'')]\<rparr>) \<and>
   href (elems example_page 12) = Some (CHR ''#'' # ''missing'') \<and>
   anchor_click 12 \<lparr>defaultPrevented = False\<rparr> example_page =
     (None, \<lparr>defaultPrevented = True\<rparr>, example_page)"
proof -
  have h10: "href (elems example_page 10) = Some (CHR ''#'' # ''contact'')"
    and h12: "href (elems example_page 12) = Some (CHR ''#'' # ''missing'')"
    by (simp_all add: example_simps)
  show ?thesis
    using h10 h12
      anchor_click_scroll[OF h10, of "\<lparr>defaultPrevented = False\<rparr>"]
      anchor_click_scroll[OF h12, of "\<lparr>defaultPrevented = False\<rparr>"]
    by (simp add: example_simps anchor_click_def getElementById_def)
qed

text \<open>
  Claim C10. \<open>preventDefault\<close> comes first and without a condition: after the listener
  the event is default-prevented for every link and page, also when the listener throws
  on a missing \<open>href\<close>; for the bare \<open>#\<close> and for a fragment that names no element the
  listener prevents the default and does nothing else.
\<close>

theorem anchor_click_prevents_default:
  "defaultPrevented (fst (snd (anchor_click this e w))) \<and>
   (href (elems w this) = Some ''#'' \<longrightarrow>
      anchor_click this e w = (None, e\<lparr>defaultPrevented := True\<rparr>, w)) \<and>
   (href (elems w this) = Some (CHR ''#'' # frag) \<and> getElementById frag w = None \<longrightarrow>
      anchor_click this e w = (None, e\<lparr>defaultPrevented := True\<rparr>, w))"
  by (auto simp: anchor_click_def getElementById_def Let_def split: option.splits)

theorem anchor_click_prevents_default_witness:
  "anchor_click 11 \<lparr>defaultPrevented = False\<rparr> example_page =
     (None, \<lparr>defaultPrevented = True\<rparr>, example_page) \<and>
   anchor_click 12 \<lparr>defaultPrevented = False\<rparr> example_page =
     (None, \<lparr>defaultPrevented = True\<rparr>, example_page) \<and>
   defaultPrevented (fst (snd (anchor_click 3 \<lparr>defaultPrevented = False\<rparr> example_page)))"
proof -
  have h11: "href (elems example_page 11) = Some ''#''"
    and h12: "href (elems example_page 12) = Some (CHR ''#'' # ''missing'') \<and>
              getElementById ''missing'' example_page = None"
    by (simp_all add: example_simps getElementById_def)
  show ?thesis
    using h11 h12
      anchor_click_prevents_default[of 11 "\<lparr>defaultPrevented = False\<rparr>" example_page "[]"]
      anchor_click_prevents_default[of 12 "\<lparr>defaultPrevented = False\<rparr>" example_page "''missing''"]
      anchor_click_prevents_default[of 3 "\<lparr>defaultPrevented = False\<rparr>" example_page "[]"]
    by simp
qed

section \<open>Hover\<close>

text \<open>
  The hover cycle on a block that was never hovered: its inline transform and box-shadow
  are empty before and hold the resting values after, so the cycle is not the identity
  on the style.
\<close>

theorem hover_cycle_counterexample:
  "transform (style (elems example_page 8)) = [] \<and>
   boxShadow (style (elems example_page 8)) = [] \<and>
   transform (style (elems (mouseleave 8 (mouseenter 8 example_page)) 8)) = ''translateY(0)'' \<and>
   boxShadow (style (elems (mouseleave 8 (mouseenter 8 example_page)) 8)) = ''none'' \<and>
   style (elems (mouseleave 8 (mouseenter 8 example_page)) 8) \<noteq> style (elems example_page 8)"
  by (simp add: example_simps mouseenter_def mouseleave_def set_style_def)

text \<open>
  Claim C7, amended. Pointer-enter followed by pointer-leave leaves the block's transform
  and box-shadow at the fixed resting values \<open>translateY(0)\<close> and \<open>none\<close>, whatever
  they were before; the result is that of pointer-leave alone (no state is carried
  between the events), a second cycle changes nothing, and the cycle is the identity
  on a page where the block was at the resting values before the pointer-enter.
\<close>

theorem hover_cycle_rest:
  "transform (style (elems (mouseleave this (mouseenter this w)) this)) = ''translateY(0)'' \<and>
   boxShadow (style (elems (mouseleave this (mouseenter this w)) this)) = ''none'' \<and>
   mouseleave this (mouseenter this w) = mouseleave this w \<and>
   mouseleave this (mouseenter this (mouseleave this (mouseenter this w)))
     = mouseleave this (mouseenter this w) \<and>
   (transform (style (elems w this)) = ''translateY(0)'' \<and>
    boxShadow (style (elems w this)) = ''none'' \<longrightarrow>
      mouseleave this (mouseenter this w) = w)"
proof -
  have eq: "mouseleave this (mouseenter this v) = mouseleave this v" for v
    by (simp add: mouseenter_def mouseleave_def set_style_def)
  have idem: "mouseleave this (mouseleave this v) = mouseleave this v" for v
    by (simp add: mouseleave_def set_style_def)
  have rest: "mouseleave this w = w"
    if "transform (style (elems w this)) = ''translateY(0)''"
      and "boxShadow (style (elems w this)) = ''none''"
  proof -
    have "(style (elems w this))\<lparr>transform := ''translateY(0)'', boxShadow := ''none''\<rparr>
            = style (elems w this)"
      using that by (cases "style (elems w this)") simp
    then show ?thesis by (simp add: mouseleave_def set_style_def)
  qed
  show ?thesis
    using eq idem rest by (simp add: mouseleave_def set_style_def)
qed

theorem hover_cycle_rest_witness:
  "transform (style (elems (mouseleave 8 example_page) 8)) = ''translateY(0)'' \<and>
   boxShadow (style (elems (mouseleave 8 example_page) 8)) = ''none'' \<and>
   mouseleave 8 (mouseenter 8 (mouseleave 8 example_page)) = mouseleave 8 example_page"
proof -
  have h: "transform (style (elems (mouseleave 8 example_page) 8)) = ''translateY(0)'' \<and>
           boxShadow (style (elems (mouseleave 8 example_page) 8)) = ''none''"
    by (simp add: mouseleave_def set_style_def)
  show ?thesis
    using h hover_cycle_rest[of 8 "mouseleave 8 example_page"] by blast
qed

section \<open>The delay of service blocks\<close>

lemma service_fold_untouched:
  "x \<notin> set xs \<Longrightarrow>
   elems (fold (\<lambda>(index, block) w'.
             observe block
               (set_style block (\<lambda>s. s\<lparr>transitionDelay := StaggerSeconds (int index)\<rparr>) w'))
          (enumerate n xs) w) x = elems w x"
  by (induction xs arbitrary: n w) (auto simp: observe_def set_style_def)

lemma service_fold_delay:
  "distinct xs \<Longrightarrow> i < length xs \<Longrightarrow>
   transitionDelay (style (elems (fold (\<lambda>(index, block) w'.
             observe block
               (set_style block (\<lambda>s. s\<lparr>transitionDelay := StaggerSeconds (int index)\<rparr>) w'))
          (enumerate n xs) w) (xs ! i))) = StaggerSeconds (int (n + i))"
proof (induction xs arbitrary: n w i)
  case Nil
  then show ?case by simp
next
  case (Cons x xs)
  show ?case
  proof (cases i)
    case 0
    with Cons.prems show ?thesis
      by (simp add: service_fold_untouched) (simp add: observe_def set_style_def)
  next
    case (Suc j)
    with Cons.prems Cons.IH[of j "Suc n"] show ?thesis by simp
  qed
qed

text \<open>
  On the example page the first service block (8) is the second child of its parent, after
  a heading: its position among the parent's children is 1, and the delay it gets is that
  of index 0.
\<close>

theorem service_block_delay_counterexample:
  "querySelectorAll ''service-block'' example_page = [8, 9] \<and>
   parentElement (elems example_page 8) = Some 6 \<and>
   indexOf (children (elems example_page 6)) 8 = 1 \<and>
   transitionDelay (style (elems (initServiceBlocksAnimation example_page) 8)) = StaggerSeconds 0 \<and>
   transitionDelay (style (elems (initServiceBlocksAnimation example_page) 8))
     \<noteq> StaggerSeconds (indexOf (children (elems example_page 6)) 8)"
  by (simp add: example_simps initServiceBlocksAnimation_def querySelectorAll_def
      observe_def set_style_def indexOf_def)

text \<open>
  Claim C6, amended. The delay assigned to a service block is 0.2 seconds times its index
  in the list of all service blocks of the document, in document order (the result of
  the query for \<open>.service-block\<close> at initialisation): the block at index \<open>i\<close> of that
  list gets the text of \<open>i * 0.2\<close> followed by \<open>s\<close>.
\<close>

theorem service_block_delay:
  assumes "distinct (all_elements w)" "i < length (querySelectorAll ''service-block'' w)"
  shows "transitionDelay (style (elems (initServiceBlocksAnimation w)
            (querySelectorAll ''service-block'' w ! i))) = StaggerSeconds (int i)"
proof -
  have "distinct (querySelectorAll ''service-block'' w)"
    using assms(1) by (simp add: querySelectorAll_def)
  from service_fold_delay[OF this assms(2), of 0 w] show ?thesis
    by (simp add: initServiceBlocksAnimation_def)
qed

theorem service_block_delay_witness:
  "distinct (all_elements example_page) \<and>
   querySelectorAll ''service-block'' example_page = [8, 9] \<and>
   transitionDelay (style (elems (initServiceBlocksAnimation example_page) 9)) = StaggerSeconds 1"
proof -
  have d: "distinct (all_elements example_page)"
    by (simp add: example_simps)
  have q: "querySelectorAll ''service-block'' example_page = [8, 9]"
    by (simp add: example_simps querySelectorAll_def)
  have l: "1 < length (querySelectorAll ''service-block'' example_page)"
    by (simp add: q)
  show ?thesis
    using d q service_block_delay[OF d l] by simp
qed

section \<open>Firing timers\<close>

lemma earliest_None: "earliest xs = None \<longleftrightarrow> xs = []"
  by (induction xs) (auto split: option.splits)

lemma earliest_Some:
  "earliest xs = Some y \<Longrightarrow> y \<in> set xs \<and> (\<forall>x \<in> set xs. fst (snd y) \<le> fst (snd x))"
proof (induction xs arbitrary: y)
  case Nil
  then show ?case by simp
next
  case (Cons a xs)
  show ?case
  proof (cases "earliest xs")
    case None
    then have "xs = []" by (simp add: earliest_None)
    with Cons.prems show ?thesis by simp
  next
    case (Some z)
    from Cons.IH[OF Some] have z: "z \<in> set xs" "\<forall>x \<in> set xs. fst (snd z) \<le> fst (snd x)"
      by simp_all
    show ?thesis
    proof (cases "fst (snd z) < fst (snd a)")
      case True
      with Some Cons.prems have "y = z" by simp
      with z True show ?thesis by auto
    next
      case False
      with Some Cons.prems have "y = a" by simp
      with z False show ?thesis by fastforce
    qed
  qed
qed

lemma next_due_None: "next_due t w = None \<longleftrightarrow> (\<forall>tm \<in> set (timers w). t < fst (snd tm))"
  by (auto simp: next_due_def earliest_None filter_empty_conv not_le)

lemma next_due_Some:
  assumes "next_due t w = Some tm"
  shows "tm \<in> set (timers w)" "fst (snd tm) \<le> t"
    "\<And>x. x \<in> set (timers w) \<Longrightarrow> fst (snd x) \<le> t \<Longrightarrow> fst (snd tm) \<le> fst (snd x)"
proof -
  let ?due = "filter (\<lambda>x. fst (snd x) \<le> t) (timers w)"
  from earliest_Some[OF assms[unfolded next_due_def]]
  have m: "tm \<in> set ?due" and l: "\<forall>x \<in> set ?due. fst (snd tm) \<le> fst (snd x)"
    by blast+
  from m show "tm \<in> set (timers w)" "fst (snd tm) \<le> t" by simp_all
  fix x assume "x \<in> set (timers w)" "fst (snd x) \<le> t"
  then have "x \<in> set ?due" by simp
  with l show "fst (snd tm) \<le> fst (snd x)" by blast
qed

lemma filter_eq_singleton: "distinct xs \<Longrightarrow> x \<in> set xs \<Longrightarrow> filter (\<lambda>y. y = x) xs = [x]"
  by (induction xs) (auto simp: filter_empty_conv)

lemma later_timer_unique:
  assumes "timers_ok w" "tm \<in> set (timers w)" "snd (snd tm) = Later"
  shows "filter (\<lambda>x. snd (snd x) = Later) (timers w) = [tm]"
proof -
  have h: "timeout w = Some (fst tm)" using assms by (auto simp: timers_ok_def)
  have d: "distinct (map fst (timers w))" using assms(1) by (simp add: timers_ok_def)
  have "(snd (snd x) = Later) = (x = tm)" if "x \<in> set (timers w)" for x
  proof
    assume "snd (snd x) = Later"
    with that assms(1) h have "fst x = fst tm" by (auto simp: timers_ok_def)
    with d that assms(2) show "x = tm" by (meson distinct_map inj_onD)
  next
    assume "x = tm" with assms(3) show "snd (snd x) = Later" by simp
  qed
  then have "filter (\<lambda>x. snd (snd x) = Later) (timers w) = filter (\<lambda>x. x = tm) (timers w)"
    by (intro filter_cong) auto
  also have "\<dots> = [tm]"
    using d assms(2) by (intro filter_eq_singleton) (simp_all add: distinct_map)
  finally show ?thesis .
qed

lemma run_timer_fields:
  assumes "timers_ok w" "tm \<in> set (timers w)"
  shows "timers (run_timer tm w) = filter (\<lambda>x. fst x \<noteq> fst tm) (timers w)"
    and "now (run_timer tm w) = fst (snd tm)"
    and "timeout (run_timer tm w) = timeout w"
    and "next_timer (run_timer tm w) = next_timer w"
    and "action_log (run_timer tm w) =
           action_log w @ (if snd (snd tm) = Later then [fst (snd tm)] else [])"
proof -
  have le: "now w \<le> fst (snd tm)" using assms by (simp add: timers_ok_def)
  have h: "snd (snd tm) = Later \<Longrightarrow> timeout w = Some (fst tm)"
    using assms by (simp add: timers_ok_def)
  show "timers (run_timer tm w) = filter (\<lambda>x. fst x \<noteq> fst tm) (timers w)"
    using h by (cases "snd (snd tm)")
      (simp_all add: run_timer_def later_def resizeAction_def clearTimeout_def
        classList_add_def set_style_def)
  show "now (run_timer tm w) = fst (snd tm)"
    using le by (cases "snd (snd tm)"; cases "timeout w")
      (simp_all add: run_timer_def later_def resizeAction_def clearTimeout_def
        classList_add_def set_style_def max_def)
  show "timeout (run_timer tm w) = timeout w"
    by (cases "snd (snd tm)"; cases "timeout w")
      (simp_all add: run_timer_def later_def resizeAction_def clearTimeout_def
        classList_add_def set_style_def)
  show "next_timer (run_timer tm w) = next_timer w"
    by (cases "snd (snd tm)"; cases "timeout w")
      (simp_all add: run_timer_def later_def resizeAction_def clearTimeout_def
        classList_add_def set_style_def)
  show "action_log (run_timer tm w) =
           action_log w @ (if snd (snd tm) = Later then [fst (snd tm)] else [])"
    using le by (cases "snd (snd tm)"; cases "timeout w")
      (simp_all add: run_timer_def later_def resizeAction_def clearTimeout_def
        classList_add_def set_style_def max_def)
qed

lemma filter_handle:
  assumes "distinct (map fst xs)" "tm \<in> set xs"
  shows "filter (\<lambda>x. fst x \<noteq> fst tm) xs = filter (\<lambda>x. x \<noteq> tm) xs"
proof (rule filter_cong[OF refl])
  fix x assume "x \<in> set xs"
  with assms have "fst x = fst tm \<longleftrightarrow> x = tm"
    by (meson distinct_map inj_onD)
  then show "(fst x \<noteq> fst tm) = (x \<noteq> tm)" by simp
qed

lemma timers_ok_run_timer:
  assumes ok: "timers_ok w" and due: "next_due t w = Some tm"
  shows "timers_ok (run_timer tm w)"
proof -
  note nd = next_due_Some[OF due]
  note rf = run_timer_fields[OF ok nd(1)]
  have "fst (snd tm) \<le> fst (snd x)" if "x \<in> set (timers w)" for x
  proof (cases "fst (snd x) \<le> t")
    case True
    with that nd(3) show ?thesis by blast
  next
    case False
    with nd(2) show ?thesis by simp
  qed
  then show ?thesis
    using ok unfolding timers_ok_def rf
    by (auto simp: distinct_map_filter)
qed

lemma pending_later_run_timer:
  assumes ok: "timers_ok w" and mem: "tm \<in> set (timers w)"
  shows "pending_later w =
           (if snd (snd tm) = Later then [fst (snd tm)] else pending_later (run_timer tm w))"
    and "snd (snd tm) = Later \<Longrightarrow> pending_later (run_timer tm w) = []"
proof -
  have d: "distinct (map fst (timers w))" using ok by (simp add: timers_ok_def)
  note rf = run_timer_fields(1)[OF ok mem]
  have rest: "filter (\<lambda>x. snd (snd x) = Later) (filter (\<lambda>x. fst x \<noteq> fst tm) (timers w)) =
        filter (\<lambda>x. x \<noteq> tm) (filter (\<lambda>x. snd (snd x) = Later) (timers w))"
    unfolding filter_handle[OF d mem] filter_filter by (intro filter_cong) auto
  show "snd (snd tm) = Later \<Longrightarrow> pending_later (run_timer tm w) = []"
    unfolding pending_later_def rf rest by (simp add: later_timer_unique[OF ok mem])
  have "filter (\<lambda>x. x \<noteq> tm) (filter (\<lambda>x. snd (snd x) = Later) (timers w)) =
        filter (\<lambda>x. snd (snd x) = Later) (timers w)" if "snd (snd tm) \<noteq> Later"
    unfolding filter_filter using that by (intro filter_cong) auto
  then show "pending_later w =
           (if snd (snd tm) = Later then [fst (snd tm)] else pending_later (run_timer tm w))"
    unfolding pending_later_def rf rest by (simp add: later_timer_unique[OF ok mem])
qed

lemma advance_to_effect:
  "timers_ok w \<Longrightarrow> now w \<le> t \<Longrightarrow>
     timers_ok (advance_to t w) \<and> now (advance_to t w) = t \<and>
     timeout (advance_to t w) = timeout w \<and> next_timer (advance_to t w) = next_timer w \<and>
     timers (advance_to t w) = filter (\<lambda>x. t < fst (snd x)) (timers w) \<and>
     action_log (advance_to t w) = action_log w @ filter (\<lambda>d. d \<le> t) (pending_later w)"
proof (induction t w rule: advance_to.induct)
  case (1 t w)
  show ?case
  proof (cases "next_due t w")
    case None
    then have all: "\<forall>tm \<in> set (timers w). t < fst (snd tm)" by (simp add: next_due_None)
    have adv: "advance_to t w = w\<lparr>now := max (now w) t\<rparr>"
      using None by (simp add: advance_to.simps)
    have "filter (\<lambda>x. t < fst (snd x)) (timers w) = timers w"
      using all by (simp add: filter_id_conv)
    moreover have "filter (\<lambda>d. d \<le> t) (pending_later w) = []"
      using all by (auto simp: pending_later_def filter_empty_conv)
    moreover have "timers_ok (w\<lparr>now := max (now w) t\<rparr>)"
      using "1.prems" all by (fastforce simp: timers_ok_def)
    ultimately show ?thesis using "1.prems" by (simp add: adv max_def)
  next
    case (Some tm)
    note nd = next_due_Some[OF Some]
    note rf = run_timer_fields[OF "1.prems"(1) nd(1)]
    let ?w1 = "run_timer tm w"
    have adv: "advance_to t w = advance_to t ?w1"
      using Some by (simp add: advance_to.simps)
    have ok1: "timers_ok ?w1" by (rule timers_ok_run_timer[OF "1.prems"(1) Some])
    have now1: "now ?w1 \<le> t" using nd(2) by (simp add: rf)
    note ih = "1.IH"[OF Some ok1 now1]
    have d: "distinct (map fst (timers w))" using "1.prems"(1) by (simp add: timers_ok_def)
    have tim: "filter (\<lambda>x. t < fst (snd x)) (timers ?w1) = filter (\<lambda>x. t < fst (snd x)) (timers w)"
      unfolding rf filter_handle[OF d nd(1)] filter_filter
      using nd(2) by (intro filter_cong) auto
    have log: "action_log ?w1 @ filter (\<lambda>d. d \<le> t) (pending_later ?w1) =
               action_log w @ filter (\<lambda>d. d \<le> t) (pending_later w)"
    proof (cases "snd (snd tm) = Later")
      case True
      with pending_later_run_timer[OF "1.prems"(1) nd(1)] nd(2) show ?thesis
        by (simp add: rf)
    next
      case False
      with pending_later_run_timer(1)[OF "1.prems"(1) nd(1)] show ?thesis
        by (simp add: rf)
    qed
    show ?thesis unfolding adv using ih tim log by (simp add: rf)
  qed
qed

lemma elapse_effect:
  assumes "timers_ok w"
  shows "timers_ok (elapse d w)" "now (elapse d w) = now w + d"
    "timeout (elapse d w) = timeout w" "next_timer (elapse d w) = next_timer w"
    "timers (elapse d w) = filter (\<lambda>x. now w + d < fst (snd x)) (timers w)"
    "action_log (elapse d w) = action_log w @ filter (\<lambda>x. x \<le> now w + d) (pending_later w)"
  using advance_to_effect[OF assms, of "now w + d"] by (simp_all add: elapse_def)

section \<open>The load listener\<close>

lemma display_none_run_callback:
  "display (style (elems w l)) = ''none'' \<Longrightarrow>
   display (style (elems (run_callback cb w) l)) = ''none''"
  by (cases cb; cases "timeout w")
     (auto simp: classList_add_def set_style_def later_def resizeAction_def clearTimeout_def)

lemma display_none_advance_to:
  "display (style (elems w l)) = ''none'' \<Longrightarrow>
   display (style (elems (advance_to t w) l)) = ''none''"
proof (induction t w rule: advance_to.induct)
  case (1 t w)
  show ?case
  proof (cases "next_due t w")
    case None
    with "1.prems" show ?thesis by (simp add: advance_to.simps)
  next
    case (Some tm)
    have "display (style (elems (run_timer tm w) l)) = ''none''"
      unfolding run_timer_def using "1.prems" by (intro display_none_run_callback) simp
    from "1.IH"[OF Some this] Some show ?thesis by (simp add: advance_to.simps)
  qed
qed

lemma hide_loader_fires:
  "timers_ok w \<Longrightarrow> (h, d, HideLoader l) \<in> set (timers w) \<Longrightarrow> d \<le> t \<Longrightarrow>
   display (style (elems (advance_to t w) l)) = ''none''"
proof (induction t w rule: advance_to.induct)
  case (1 t w)
  show ?case
  proof (cases "next_due t w")
    case None
    with "1.prems" show ?thesis by (fastforce simp: next_due_None)
  next
    case (Some tm)
    note nd = next_due_Some[OF Some]
    have adv: "advance_to t w = advance_to t (run_timer tm w)"
      using Some by (simp add: advance_to.simps)
    show ?thesis
    proof (cases "tm = (h, d, HideLoader l)")
      case True
      have "display (style (elems (run_timer tm w) l)) = ''none''"
        by (simp add: True run_timer_def set_style_def)
      then show ?thesis unfolding adv by (rule display_none_advance_to)
    next
      case False
      have dist: "distinct (map fst (timers w))" using "1.prems"(1) by (simp add: timers_ok_def)
      have "(h, d, HideLoader l) \<in> set (filter (\<lambda>x. x \<noteq> tm) (timers w))"
        using False "1.prems"(2) by simp
      then have "(h, d, HideLoader l) \<in> set (timers (run_timer tm w))"
        unfolding run_timer_fields(1)[OF "1.prems"(1) nd(1)] filter_handle[OF dist nd(1)] .
      from "1.IH"[OF Some timers_ok_run_timer[OF "1.prems"(1) Some] this "1.prems"(3)]
      show ?thesis unfolding adv .
    qed
  qed
qed


lemma querySelector_classList_add:
  "c \<noteq> c' \<Longrightarrow> querySelector c (classList_add b c' w) = querySelector c w"
proof -
  assume ne: "c \<noteq> c'"
  have "querySelectorAll c (classList_add b c' w) = querySelectorAll c w"
    unfolding querySelectorAll_def using ne
    by (intro filter_cong) (auto simp: classList_add_def)
  then show ?thesis by (simp add: querySelector_def)
qed

lemma setTimeout_effect:
  assumes "timers_ok w" "cb \<noteq> Later"
  shows "timers_ok (snd (setTimeout cb wait w))"
  using assms unfolding timers_ok_def setTimeout_def
  by (auto simp: less_Suc_eq)

text \<open>
  Claim C8. On window load, with a page body and a well-formed timer queue, the listener
  does not throw and the body has the class \<open>loaded\<close> afterwards. With no loader element
  nothing but that class is added. With a loader element its opacity is \<open>0\<close> at once,
  its display is still what it was, one timer is queued for 300 ms later with the
  callback that hides the loader, and once 300 ms have passed the display is \<open>none\<close>.
\<close>

theorem window_load_effects:
  assumes "body w = Some b" "timers_ok w"
  shows "fst (window_load w) = None \<and>
     classList_contains b ''loaded'' (snd (window_load w)) \<and>
     (case querySelector ''loader'' w of
        None \<Rightarrow> snd (window_load w) = classList_add b ''loaded'' w
      | Some loader \<Rightarrow>
          opacity (style (elems (snd (window_load w)) loader)) = ''0'' \<and>
          display (style (elems (snd (window_load w)) loader)) = display (style (elems w loader)) \<and>
          timers (snd (window_load w)) = timers w @ [(next_timer w, now w + 300, HideLoader loader)] \<and>
          display (style (elems (elapse 300 (snd (window_load w))) loader)) = ''none'')"
proof -
  let ?w1 = "classList_add b ''loaded'' w"
  have q: "querySelector ''loader'' ?w1 = querySelector ''loader'' w"
    by (rule querySelector_classList_add) simp
  have loaded: "classList_contains b ''loaded'' ?w1"
    by (simp add: classList_contains_def classList_add_def)
  show ?thesis
  proof (cases "querySelector ''loader'' w")
    case None
    with assms(1) q loaded show ?thesis by (simp add: window_load_def)
  next
    case (Some l)
    let ?w2 = "set_style l (\<lambda>s. s\<lparr>opacity := ''0''\<rparr>) ?w1"
    let ?w' = "snd (setTimeout (HideLoader l) 300 ?w2)"
    have wl: "window_load w = (None, ?w')"
      using assms(1) q Some by (simp add: window_load_def)
    have ok2: "timers_ok ?w2"
      using assms(2) by (simp add: timers_ok_def set_style_def classList_add_def)
    have ok': "timers_ok ?w'" by (rule setTimeout_effect[OF ok2]) simp
    have tim: "timers ?w' = timers w @ [(next_timer w, now w + 300, HideLoader l)]"
      and nw: "now ?w' = now w"
      by (simp_all add: setTimeout_def set_style_def classList_add_def)
    have "display (style (elems (advance_to (now ?w' + 300) ?w') l)) = ''none''"
      by (rule hide_loader_fires[OF ok', of "next_timer w" "now w + 300"]) (simp_all add: tim nw)
    then have fired: "display (style (elems (elapse 300 ?w') l)) = ''none''"
      by (simp add: elapse_def)
    have cls: "classList_contains b ''loaded'' ?w'"
      using loaded by (auto simp: setTimeout_def set_style_def classList_contains_def)
    have op: "opacity (style (elems ?w' l)) = ''0''"
      and di: "display (style (elems ?w' l)) = display (style (elems w l))"
      by (auto simp: setTimeout_def set_style_def classList_add_def)
    show ?thesis
      unfolding wl using Some cls op di tim fired by simp
  qed
qed

theorem window_load_effects_witness:
  "fst (window_load example_page) = None \<and>
   classList_contains 1 ''loaded'' (snd (window_load example_page)) \<and>
   querySelector ''loader'' example_page = Some 14 \<and>
   opacity (style (elems (snd (window_load example_page)) 14)) = ''0'' \<and>
   display (style (elems (snd (window_load example_page)) 14)) = [] \<and>
   timers (snd (window_load example_page)) = [(1, 300, HideLoader 14)] \<and>
   display (style (elems (elapse 300 (snd (window_load example_page))) 14)) = ''none''"
proof -
  have b: "body example_page = Some 1" by (simp add: example_page_def)
  have ok: "timers_ok example_page" by (simp add: timers_ok_def example_page_def)
  have q: "querySelector ''loader'' example_page = Some 14"
    by (simp add: querySelector_def querySelectorAll_def example_simps)
  have v: "display (style (elems example_page 14)) = []" "timers example_page = []"
    "next_timer example_page = 1" "now example_page = 0"
    by (simp_all add: example_simps)
  show ?thesis
    using window_load_effects[OF b ok] q v by simp
qed

section \<open>The resize throttle\<close>

lemma resize_listener_effect:
  assumes ok: "timers_ok w"
  shows "timers_ok (resize_listener w)"
    and "pending_later (resize_listener w) = [now w + 250]"
    and "now (resize_listener w) = now w"
    and "action_log (resize_listener w) = action_log w"
proof -
  let ?keep = "filter (\<lambda>tm. snd (snd tm) \<noteq> Later) (timers w)"
  have cleared: "timers (clearTimeout (timeout w) w) = ?keep"
  proof (cases "timeout w")
    case None
    then have "\<forall>tm \<in> set (timers w). snd (snd tm) \<noteq> Later"
      using ok by (auto simp: timers_ok_def)
    with None show ?thesis by (simp add: clearTimeout_def filter_id_conv)
  next
    case (Some h)
    have "filter (\<lambda>tm. fst tm \<noteq> h) (timers w) = ?keep"
      using ok Some by (intro filter_cong) (auto simp: timers_ok_def)
    with Some show ?thesis by (simp add: clearTimeout_def)
  qed
  have tim: "timers (resize_listener w) = ?keep @ [(next_timer w, now w + 250, Later)]"
    and nx: "next_timer (resize_listener w) = Suc (next_timer w)"
    and to: "timeout (resize_listener w) = Some (next_timer w)"
    using cleared
    by (cases "timeout w"; simp add: resize_listener_def executedFunction_def setTimeout_def
        clearTimeout_def Let_def)+
  show "now (resize_listener w) = now w" "action_log (resize_listener w) = action_log w"
    by (cases "timeout w"; simp add: resize_listener_def executedFunction_def setTimeout_def
        clearTimeout_def Let_def)+
  then show "timers_ok (resize_listener w)"
    using ok unfolding timers_ok_def tim nx to
    by (auto simp: distinct_map_filter less_Suc_eq)
  show "pending_later (resize_listener w) = [now w + 250]"
    unfolding pending_later_def tim by (simp add: filter_empty_conv)
qed

lemma burst_ends_nonempty: "burst_ends (t # ts) \<noteq> []"
  by (induction ts arbitrary: t) auto

lemma resizes_effect:
  assumes "timers_ok v"
  shows "timers_ok (resizes gs (resize_listener v)) \<and>
     now (resizes gs (resize_listener v)) = last (now v # event_times (now v) gs) \<and>
     pending_later (resizes gs (resize_listener v)) = [last (now v # event_times (now v) gs) + 250] \<and>
     action_log (elapse q (resizes gs (resize_listener v))) =
       action_log v @ map (\<lambda>t. t + 250)
         (if 250 \<le> q then burst_ends (now v # event_times (now v) gs)
          else butlast (burst_ends (now v # event_times (now v) gs)))"
  using assms
proof (induction gs arbitrary: v)
  case Nil
  note r = resize_listener_effect[OF Nil]
  show ?case
    using r elapse_effect(6)[OF r(1), of q] by simp
next
  case (Cons g gs)
  note r = resize_listener_effect[OF Cons.prems]
  let ?v' = "elapse g (resize_listener v)"
  note e = elapse_effect[OF r(1), of g]
  have now': "now ?v' = now v + g" using e(2) r(3) by simp
  have log': "action_log ?v' = action_log v @ (if 250 \<le> g then [now v + 250] else [])"
    using e(6) r by simp
  note ih = Cons.IH[OF e(1)]
  have ne: "burst_ends ((now v + g) # event_times (now v + g) gs) \<noteq> []"
    by (rule burst_ends_nonempty)
  show ?case
    using ih ne unfolding now' log' by (simp add: butlast.simps(2))
qed

text \<open>
  Claim C9. Start with a well-formed timer queue and no \<open>later\<close> pending, and let resize
  events come with any gaps \<open>gs\<close>. After the last event exactly one \<open>later\<close> is pending,
  due 250 ms after that event: each event has replaced the timer of the one before. Once
  250 ms or more have passed after the last event, the wrapped function has run once for
  each burst, 250 ms after the last event of the burst, and at no other time; before
  250 ms have passed it has not yet run for the last burst. (A timer due at the very
  time of an event fires before the event is handled.)
\<close>

theorem resize_throttle:
  assumes "timers_ok w" "pending_later w = []"
  shows "(250 \<le> q \<longrightarrow>
            action_log (elapse q (resizes gs w)) =
              action_log w @ map (\<lambda>t. t + 250) (burst_ends (event_times (now w) gs))) \<and>
         (q < 250 \<longrightarrow>
            action_log (elapse q (resizes gs w)) =
              action_log w @ map (\<lambda>t. t + 250) (butlast (burst_ends (event_times (now w) gs)))) \<and>
         (gs \<noteq> [] \<longrightarrow>
            pending_later (resizes gs w) = [last (event_times (now w) gs) + 250])"
proof (cases gs)
  case Nil
  then show ?thesis
    using elapse_effect(6)[OF assms(1), of q] assms(2) by simp
next
  case (Cons g gs')
  let ?v = "elapse g w"
  note e = elapse_effect[OF assms(1), of g]
  have log: "action_log ?v = action_log w" using e(6) assms(2) by simp
  have "resizes gs w = resizes gs' (resize_listener ?v)" by (simp add: Cons)
  then show ?thesis
    using resizes_effect[OF e(1), of gs' q] log e(2) by (simp add: Cons)
qed

theorem resize_throttle_witness:
  "action_log (elapse 250 (resizes [10, 100, 100, 300, 50] example_page)) = [460, 810] \<and>
   action_log (elapse 249 (resizes [10, 100, 100, 300, 50] example_page)) = [460] \<and>
   pending_later (resizes [10, 100, 100, 300, 50] example_page) = [810]"
proof -
  have ok: "timers_ok example_page" and idle: "pending_later example_page = []"
    by (simp_all add: timers_ok_def pending_later_def example_page_def)
  have t: "now example_page = 0" "action_log example_page = []"
    by (simp_all add: example_page_def)
  show ?thesis
    using resize_throttle[OF ok idle, of 250 "[10, 100, 100, 300, 50]"]
      resize_throttle[OF ok idle, of 249 "[10, 100, 100, 300, 50]"]
    by (simp add: t)
qed

subsection \<open>The queue stays well formed\<close>

text \<open>
  The queue starts empty and every operation of the script that touches timers keeps it
  well formed, as does the passage of time.
\<close>

lemma timers_ok_preserved:
  assumes "timers_ok w"
  shows "timers_ok (snd (window_load w))" "timers_ok (initHeroAnimation w)"
    "timers_ok (resize_listener w)" "timers_ok (elapse d w)"
proof -
  have el: "timers_ok (w\<lparr>elems := f\<rparr>)" for f
    using assms by (simp add: timers_ok_def)
  have add: "timers_ok (classList_add b c w)" for b c
    using assms by (simp add: timers_ok_def classList_add_def)
  have "timers_ok (set_style l f (classList_add b c w))" for l f b c
    using add[of b c] by (simp add: timers_ok_def set_style_def)
  then show "timers_ok (snd (window_load w))"
    using assms add setTimeout_effect
    by (auto simp: window_load_def Let_def split: option.splits)
  show "timers_ok (initHeroAnimation w)"
    using assms setTimeout_effect by (auto simp: initHeroAnimation_def split: option.splits)
  show "timers_ok (resize_listener w)" by (rule resize_listener_effect(1)[OF assms])
  show "timers_ok (elapse d w)" by (rule elapse_effect(1)[OF assms])
qed

section \<open>A list item without a parent element\<close>

text \<open>
  When the handler returns normally from an intersecting entry, its target is no longer
  observed.
\<close>

lemma triggered_unobserved:
  "handleEntry en w = (None, w') \<Longrightarrow> isIntersecting en \<Longrightarrow> target en \<notin> set (observed w')"
  by (auto simp: handleEntry_def addStaggeredAnimation_def Let_def unobserve_def set_style_def
      split: if_splits option.splits)

text \<open>
  Claim C3 at the page whose root element is a list item. The entry for the root is
  handled up to the call of \<open>addStaggeredAnimation\<close>, which throws: the root has the
  class \<open>animate\<close> and is still in the observer's target list, since \<open>unobserve\<close> was
  not reached.
\<close>

theorem animated_root_still_observed:
  "animated 0 (snd (handleIntersection [\<lparr>isIntersecting = True, target = 0\<rparr>] root_item_page)) \<and>
   0 \<in> set (observed (snd (handleIntersection [\<lparr>isIntersecting = True, target = 0\<rparr>]
                              root_item_page)))"
  by (simp add: root_item_page_def blank_element_def blank_style_def handleIntersection_def
      handleEntry_def addStaggeredAnimation_def classList_contains_def classList_add_def
      animated_def)

text \<open>
  Claim C4 at the same page. Handling a batch that holds the entry of the root throws a
  \<open>TypeError\<close>; the iteration ends there, so the entry that follows in the batch is not
  handled and its target is not animated.
\<close>

theorem list_item_without_parent_throws:
  "handleIntersection [\<lparr>isIntersecting = True, target = 0\<rparr>, \<lparr>isIntersecting = True, target = 1\<rparr>]
     root_item_page = (Some TypeError, classList_add 0 ''animate'' root_item_page) \<and>
   \<not> animated 1 (snd (handleIntersection
        [\<lparr>isIntersecting = True, target = 0\<rparr>, \<lparr>isIntersecting = True, target = 1\<rparr>]
        root_item_page))"
  by (simp add: root_item_page_def blank_element_def blank_style_def handleIntersection_def
      handleEntry_def addStaggeredAnimation_def classList_contains_def classList_add_def
      animated_def)

end
